theory Spec2Isabelle
  imports
    Main
    "HOL-Library.Char_ord"
    "HOL-Library.List_Lexorder"
    "HOL-Library.Product_Lexorder"
begin

section \<open>Python values used by \<open>most_common_schedule_by_genre.py\<close>\<close>

text \<open>
  A Python \<open>str\<close> is modelled as a \<open>string\<close>, one \<open>char\<close> per code point, for the
  code points 0..255. String comparison is the lexicographic order on code points
  (\<open>List_Lexorder\<close> over \<open>Char_ord\<close>), tuples compare lexicographically
  (\<open>Product_Lexorder\<close>), Python's unbounded \<open>int\<close> is \<open>int\<close>. A \<open>dict\<close> is an
  association list in insertion order with distinct keys, which is the order
  \<open>.items()\<close> iterates in.
\<close>

abbreviation DQ :: char where "DQ \<equiv> CHR 0x22"
abbreviation SQ :: char where "SQ \<equiv> CHR 0x27"
abbreviation COMMA :: char where "COMMA \<equiv> CHR 0x2C"
abbreviation SPACE :: char where "SPACE \<equiv> CHR 0x20"
abbreviation NL :: char where "NL \<equiv> CHR 0x0A"

text \<open>The code points below 256 for which \<open>str.isspace\<close> holds; \<open>str.strip()\<close> removes them.\<close>

definition py_isspace :: "char \<Rightarrow> bool" where
  "py_isspace c \<longleftrightarrow>
     c \<in> set [CHR 0x09, CHR 0x0A, CHR 0x0B, CHR 0x0C, CHR 0x0D, CHR 0x1C, CHR 0x1D,
              CHR 0x1E, CHR 0x1F, CHR 0x20, CHR 0x85, CHR 0xA0]"

text \<open>\<open>s.strip()\<close>\<close>

definition strip :: "string \<Rightarrow> string" where
  "strip s = rev (dropWhile py_isspace (rev (dropWhile py_isspace s)))"

text \<open>\<open>s.strip(chars)\<close>\<close>

definition strip_chars :: "char list \<Rightarrow> string \<Rightarrow> string" where
  "strip_chars cs s =
     rev (dropWhile (\<lambda>c. c \<in> set cs) (rev (dropWhile (\<lambda>c. c \<in> set cs) s)))"

text \<open>\<open>s.rstrip(chars)\<close>\<close>

definition rstrip_chars :: "char list \<Rightarrow> string \<Rightarrow> string" where
  "rstrip_chars cs s = rev (dropWhile (\<lambda>c. c \<in> set cs) (rev s))"

text \<open>\<open>s.lower()\<close>: the upper-case letters below code point 256 move up by 32.\<close>

definition lower_char :: "char \<Rightarrow> char" where
  "lower_char c =
     (let n = (of_char c :: nat)
      in if (65 \<le> n \<and> n \<le> 90) \<or> (192 \<le> n \<and> n \<le> 222 \<and> n \<noteq> 215)
         then char_of (n + 32) else c)"

definition lower :: "string \<Rightarrow> string" where
  "lower s = map lower_char s"

text \<open>\<open>s.startswith(p)\<close> and \<open>s.endswith(p)\<close> for a one-character \<open>p\<close>; \<open>s[1:-1]\<close>.\<close>

definition startswith :: "string \<Rightarrow> char \<Rightarrow> bool" where
  "startswith s c \<longleftrightarrow> (case s of [] \<Rightarrow> False | x # _ \<Rightarrow> x = c)"

definition endswith :: "string \<Rightarrow> char \<Rightarrow> bool" where
  "endswith s c \<longleftrightarrow> (case rev s of [] \<Rightarrow> False | x # _ \<Rightarrow> x = c)"

definition slice_1_m1 :: "string \<Rightarrow> string" where
  "slice_1_m1 s = butlast (tl s)"

text \<open>\<open>needle in hay\<close> on strings: \<open>needle\<close> occurs as a contiguous substring.\<close>

fun starts_with :: "string \<Rightarrow> string \<Rightarrow> bool" where
  "starts_with [] hay = True"
| "starts_with (n # ns) [] = False"
| "starts_with (n # ns) (h # hs) = (n = h \<and> starts_with ns hs)"

fun py_in :: "string \<Rightarrow> string \<Rightarrow> bool" where
  "py_in needle [] = (needle = [])"
| "py_in needle (h # hs) = (starts_with needle (h # hs) \<or> py_in needle hs)"

text \<open>\<open>s.split(sep)\<close> for a one-character separator: never empty, \<open>''.split(',') == ['']\<close>.\<close>

fun split_on :: "char \<Rightarrow> string \<Rightarrow> string list" where
  "split_on sep [] = [[]]"
| "split_on sep (c # cs) =
     (if c = sep then [] # split_on sep cs
      else (case split_on sep cs of [] \<Rightarrow> [[c]] | p # ps \<Rightarrow> (c # p) # ps))"

text \<open>\<open>s.count(c)\<close>\<close>

definition count_char :: "char \<Rightarrow> string \<Rightarrow> nat" where
  "count_char c s = length (filter (\<lambda>x. x = c) s)"

text \<open>\<open>d[k] = v\<close>: an existing key keeps its place, a new key goes last. \<open>d.get(k)\<close>.\<close>

fun dict_set :: "('k \<times> 'v) list \<Rightarrow> 'k \<Rightarrow> 'v \<Rightarrow> ('k \<times> 'v) list" where
  "dict_set [] k v = [(k, v)]"
| "dict_set ((k', v') # d) k v =
     (if k' = k then (k, v) # d else (k', v') # dict_set d k v)"

definition dict_get :: "('k \<times> 'v) list \<Rightarrow> 'k \<Rightarrow> 'v option" where
  "dict_get d k = map_of d k"

datatype error = ValueError string

text \<open>
  \<open>max(xs, key=key)\<close>: raises \<open>ValueError\<close> on an empty iterable (the message is
  CPython's), otherwise returns the first element whose key is maximal.
\<close>

fun py_max :: "('a \<Rightarrow> 'k::linorder) \<Rightarrow> 'a list \<Rightarrow> error + 'a" where
  "py_max key [] = Inl (ValueError ''max() arg is an empty sequence'')"
| "py_max key (x # xs) = Inr (foldl (\<lambda>best y. if key best < key y then y else best) x xs)"

section \<open>\<open>split_csv_line\<close>\<close>

text \<open>
  The \<open>while i < n\<close> loop. The first argument is the unread part \<open>line[i:]\<close>; the test
  \<open>i + 1 < n and line[i + 1] == '"'\<close> looks at the character after its head.
\<close>

fun scan_line :: "string \<Rightarrow> bool \<Rightarrow> string \<Rightarrow> string list \<Rightarrow> string list" where
  "scan_line [] in_quotes cur fields = fields @ [cur]"
| "scan_line (ch # rest) in_quotes cur fields =
     (if in_quotes then
        (if ch = DQ then
           (case rest of
              [] \<Rightarrow> scan_line rest False cur fields
            | ch2 # rest2 \<Rightarrow>
                if ch2 = DQ then scan_line rest2 True (cur @ [DQ]) fields
                else scan_line rest False cur fields)
         else scan_line rest True (cur @ [ch]) fields)
      else
        (if ch = DQ then scan_line rest True cur fields
         else if ch = COMMA then scan_line rest False [] (fields @ [cur])
         else scan_line rest False (cur @ [ch]) fields))"

definition post_process :: "string \<Rightarrow> string" where
  "post_process f = (if length f > 1 \<and> hd f = DQ \<and> last f = DQ then f else strip f)"

definition split_csv_line :: "string \<Rightarrow> string list" where
  "split_csv_line line = map post_process (scan_line line False [] [])"

section \<open>\<open>iter_csv_rows\<close>\<close>

text \<open>
  The file is the list of its physical lines as iteration over the file object yields
  them. The generator's \<open>yield\<close>s are collected in order; what is left in \<open>buffer\<close> when
  the lines run out is not yielded.
\<close>

fun rows_loop :: "string \<Rightarrow> string list \<Rightarrow> string list list" where
  "rows_loop buffer [] = []"
| "rows_loop buffer (raw_line # raw_lines) =
     (let line = rstrip_chars [NL] raw_line;
          buffer' = (if buffer \<noteq> [] then buffer @ [NL] @ line else line);
          quote_count = count_char DQ buffer'
      in if quote_count mod 2 = 0
         then split_csv_line buffer' # rows_loop [] raw_lines
         else rows_loop buffer' raw_lines)"

definition iter_csv_rows :: "string list \<Rightarrow> string list list" where
  "iter_csv_rows raw_lines = rows_loop [] raw_lines"

section \<open>\<open>extract_genres\<close>\<close>

text \<open>
  The bracket scan. The first argument is the unread part \<open>inside[i:]\<close>. The inner loop
  \<open>while i < len(inside) and inside[i] in ', '\<close> drops the leading commas and spaces;
  the inner loop over \<open>j\<close> stops at the first comma, so \<open>inside[i:j]\<close> is the part before
  it and \<open>i = j + 1\<close> continues behind it.
\<close>

function bracket_scan ::
  "string \<Rightarrow> string list \<Rightarrow> string \<Rightarrow> bool \<Rightarrow> char option \<Rightarrow> string list" where
  "bracket_scan [] genres cur in_q qchar = genres"
| "bracket_scan (ch # rest) genres cur in_q qchar =
     (if \<not> in_q \<and> (ch = DQ \<or> ch = SQ) then bracket_scan rest genres [] True (Some ch)
      else if in_q then
        (if Some ch = qchar
         then bracket_scan (dropWhile (\<lambda>c. c = COMMA \<or> c = SPACE) rest)
                (genres @ [cur]) cur False None
         else bracket_scan rest genres (cur @ [ch]) in_q qchar)
      else
        (let token = strip_chars [DQ, SQ] (strip (takeWhile (\<lambda>c. c \<noteq> COMMA) (ch # rest)));
             genres' = (if token \<noteq> [] then genres @ [token] else genres)
         in bracket_scan (drop 1 (dropWhile (\<lambda>c. c \<noteq> COMMA) (ch # rest)))
              genres' cur in_q qchar))"
  by pat_completeness auto
termination
proof (relation "measure (\<lambda>(s, genres, cur, in_q, qchar). length s)")
  show "wf (measure (\<lambda>(s :: string, genres :: string list, cur :: string,
                       in_q :: bool, qchar :: char option). length s))"
    by simp
qed (auto intro!: le_imp_less_Suc order_trans [OF diff_le_self length_dropWhile_le]
       length_dropWhile_le)

definition extract_genres :: "string \<Rightarrow> string list" where
  "extract_genres genre_field =
     (let genre_field = strip genre_field;
          genre_field = (if startswith genre_field DQ \<and> endswith genre_field DQ
                         then slice_1_m1 genre_field else genre_field)
      in if startswith genre_field (CHR ''['') \<and> endswith genre_field (CHR '']'')
         then bracket_scan (strip (slice_1_m1 genre_field)) [] [] False None
         else map (\<lambda>g. strip_chars [DQ, SQ] (strip g))
                (filter (\<lambda>g. strip g \<noteq> []) (split_on COMMA genre_field)))"

section \<open>\<open>get_most_common_schedule_by_genre\<close>\<close>

text \<open>\<open>{h.strip(): idx for idx, h in enumerate(header)}\<close>\<close>

definition header_map_of :: "string list \<Rightarrow> (string \<times> nat) list" where
  "header_map_of header =
     foldl (\<lambda>m (idx, h). dict_set m (strip h) idx) [] (enumerate 0 header)"

text \<open>\<open>next((idx for name, idx in header_map.items() if p(name)), None)\<close>\<close>

definition first_idx :: "(string \<Rightarrow> bool) \<Rightarrow> (string \<times> nat) list \<Rightarrow> nat option" where
  "first_idx p m = (case filter (\<lambda>(name, idx). p name) m of [] \<Rightarrow> None | (name, idx) # _ \<Rightarrow> Some idx)"

definition is_genre_name :: "string \<Rightarrow> bool" where
  "is_genre_name name \<longleftrightarrow> py_in ''genre'' (lower name)"

definition is_schedule_name :: "string \<Rightarrow> bool" where
  "is_schedule_name name \<longleftrightarrow> py_in ''schedule'' (lower name) \<and> py_in ''time'' (lower name)"

abbreviation genres_error :: error where
  "genres_error \<equiv> ValueError ''Could not find a Genres column in header''"

abbreviation schedule_error :: error where
  "schedule_error \<equiv> ValueError ''Could not find a Schedule (time) column in header''"

text \<open>Lines 125 to 132: the two column indices, or the error raised.\<close>

definition resolve_columns :: "string list \<Rightarrow> error + (nat \<times> nat)" where
  "resolve_columns header =
     (let header_map = header_map_of header;
          genres_col = first_idx is_genre_name header_map;
          schedule_col = first_idx is_schedule_name header_map
      in case genres_col of
           None \<Rightarrow> Inl genres_error
         | Some g \<Rightarrow>
             (case schedule_col of
                None \<Rightarrow> Inl schedule_error
              | Some s \<Rightarrow> Inr (g, s)))"

type_synonym time_counts = "(string \<times> int) list"
type_synonym counts = "(string \<times> time_counts) list"

text \<open>
  The body of \<open>for genre in genres\<close>: \<open>counts.setdefault(genre, {})\<close> followed by
  \<open>genre_counts[time] = genre_counts.get(time, 0) + 1\<close> on the dict stored under \<open>genre\<close>.
\<close>

definition count_genre :: "string \<Rightarrow> counts \<Rightarrow> string \<Rightarrow> counts" where
  "count_genre time counts genre =
     (if genre = [] then counts
      else
        (let genre_counts = (case dict_get counts genre of None \<Rightarrow> [] | Some gc \<Rightarrow> gc);
             n = (case dict_get genre_counts time of None \<Rightarrow> 0 | Some c \<Rightarrow> c)
         in dict_set counts genre (dict_set genre_counts time (n + 1))))"

text \<open>The body of \<open>for row in rows\<close>.\<close>

definition count_row :: "nat \<Rightarrow> nat \<Rightarrow> counts \<Rightarrow> string list \<Rightarrow> counts" where
  "count_row genres_col schedule_col counts row =
     (if max genres_col schedule_col \<ge> length row then counts
      else
        (let raw_genres = row ! genres_col;
             time = strip (row ! schedule_col)
         in if time = [] then counts
            else foldl (count_genre time) counts (extract_genres raw_genres)))"

definition aggregate :: "nat \<Rightarrow> nat \<Rightarrow> string list list \<Rightarrow> counts" where
  "aggregate genres_col schedule_col rows = foldl (count_row genres_col schedule_col) [] rows"

text \<open>The final loop: \<open>max(time_counts.items(), key=lambda x: (x[1], x[0]))\<close> per genre.\<close>

definition best_time :: "time_counts \<Rightarrow> error + string" where
  "best_time time_counts =
     (case py_max (\<lambda>x. (snd x, fst x)) time_counts of
        Inl e \<Rightarrow> Inl e
      | Inr best \<Rightarrow> Inr (fst best))"

fun resolve_loop :: "counts \<Rightarrow> (string \<times> string) list \<Rightarrow> error + (string \<times> string) list" where
  "resolve_loop [] result = Inr result"
| "resolve_loop ((genre, time_counts) # rest) result =
     (case best_time time_counts of
        Inl e \<Rightarrow> Inl e
      | Inr t \<Rightarrow> resolve_loop rest (dict_set result genre t))"

definition get_most_common_schedule_by_genre ::
  "string list \<Rightarrow> error + (string \<times> string) list" where
  "get_most_common_schedule_by_genre raw_lines =
     (case iter_csv_rows raw_lines of
        [] \<Rightarrow> Inr []
      | header # rows \<Rightarrow>
          (case resolve_columns header of
             Inl e \<Rightarrow> Inl e
           | Inr (genres_col, schedule_col) \<Rightarrow>
               resolve_loop (aggregate genres_col schedule_col rows) []))"

section \<open>Column resolution as the specification words it\<close>

text \<open>The position of the first element that satisfies \<open>p\<close>, and the last position of \<open>n\<close>.\<close>

fun first_pos :: "('a \<Rightarrow> bool) \<Rightarrow> 'a list \<Rightarrow> nat option" where
  "first_pos p [] = None"
| "first_pos p (x # xs) = (if p x then Some 0 else map_option Suc (first_pos p xs))"

fun last_pos :: "'a \<Rightarrow> 'a list \<Rightarrow> nat option" where
  "last_pos n [] = None"
| "last_pos n (x # xs) =
     (case last_pos n xs of Some i \<Rightarrow> Some (Suc i) | None \<Rightarrow> if x = n then Some 0 else None)"

text \<open>
  The last position that carries the same name as the first name satisfying \<open>p\<close>.
\<close>

definition last_named :: "(string \<Rightarrow> bool) \<Rightarrow> string list \<Rightarrow> nat option" where
  "last_named p names = (case List.find p names of None \<Rightarrow> None | Some n \<Rightarrow> last_pos n names)"

definition columns_of :: "nat option \<Rightarrow> nat option \<Rightarrow> error + (nat \<times> nat)" where
  "columns_of genres_col schedule_col =
     (case genres_col of
        None \<Rightarrow> Inl genres_error
      | Some g \<Rightarrow> (case schedule_col of None \<Rightarrow> Inl schedule_error | Some s \<Rightarrow> Inr (g, s)))"

text \<open>
  The specification's column resolution: the first header field, in header order, whose
  trimmed name matches, for each of the two columns.
\<close>

definition claimed_columns :: "string list \<Rightarrow> error + (nat \<times> nat)" where
  "claimed_columns header =
     columns_of (first_pos is_genre_name (map strip header))
                (first_pos is_schedule_name (map strip header))"

text \<open>
  The same with the position taken from the header mapping: the first matching trimmed
  name, at the last position where that name stands.
\<close>

definition amended_columns :: "string list \<Rightarrow> error + (nat \<times> nat)" where
  "amended_columns header =
     columns_of (last_named is_genre_name (map strip header))
                (last_named is_schedule_name (map strip header))"

text \<open>The step of the dict comprehension that builds the header mapping.\<close>

abbreviation hstep :: "(string \<times> nat) list \<Rightarrow> nat \<times> string \<Rightarrow> (string \<times> nat) list" where
  "hstep \<equiv> (\<lambda>m (idx, h). dict_set m (strip h) idx)"

section \<open>Reading the frequency table\<close>


definition row_counted :: "nat \<Rightarrow> nat \<Rightarrow> string list \<Rightarrow> bool" where
  "row_counted genres_col schedule_col row \<longleftrightarrow>
     max genres_col schedule_col < length row \<and> strip (row ! schedule_col) \<noteq> []"

definition genres_seen :: "nat \<Rightarrow> nat \<Rightarrow> string list list \<Rightarrow> string list" where
  "genres_seen genres_col schedule_col rows =
     concat (map (\<lambda>row. filter (\<lambda>genre. genre \<noteq> []) (extract_genres (row ! genres_col)))
               (filter (row_counted genres_col schedule_col) rows))"

text \<open>The invariant of the frequency table.\<close>

definition table_ok :: "counts \<Rightarrow> bool" where
  "table_ok counts \<longleftrightarrow>
     distinct (map fst counts) \<and>
     (\<forall>(genre, tc) \<in> set counts. tc \<noteq> [] \<and> (\<forall>(t, c) \<in> set tc. 1 \<le> c))"

section \<open>\<open>_main\<close>\<close>

text \<open>
  The file system is a map from a path to the physical lines of the regular file there.
  What \<open>_main\<close> prints is kept as a list of messages, with the exit code. The only
  exception of the model is the \<open>ValueError\<close>, so the handler of any other exception has
  no branch.
\<close>

datatype printed =
    No_path_warning
  | Fallback_info string
  | File_not_found string
  | No_valid_data
  | Result_line string string
  | Value_error string

definition fallback_path :: string where
  "fallback_path = ''C:/Users/sebas/Downloads/TV_show_data.csv''"

definition result_lines :: "(string \<times> string) list \<Rightarrow> printed list" where
  "result_lines result =
     concat (map (\<lambda>genre. case dict_get result genre of
                             None \<Rightarrow> []
                           | Some t \<Rightarrow> [Result_line genre t])
               (sort (map fst result)))"

definition main :: "(string \<Rightarrow> string list option) \<Rightarrow> string list \<Rightarrow> printed list \<times> int" where
  "main files argv =
     (let (out, path) =
            (if length argv \<ge> 2 then ([], argv ! 1)
             else ([No_path_warning, Fallback_info fallback_path], fallback_path))
      in case files path of
           None \<Rightarrow> (out @ [File_not_found path], 1)
         | Some raw_lines \<Rightarrow>
             (case get_most_common_schedule_by_genre raw_lines of
                Inl (ValueError ve) \<Rightarrow> (out @ [Value_error ve], 1)
              | Inr result \<Rightarrow>
                  if result = [] then (out @ [No_valid_data], 1)
                  else (out @ result_lines result, 0)))"

section \<open>Records of quoted fields\<close>

text \<open>
  A field written in quotes, with each double quote of its content doubled, and a record of
  fields joined by commas.
\<close>

definition escape_quotes :: "string \<Rightarrow> string" where
  "escape_quotes s = concat (map (\<lambda>c. if c = DQ then [DQ, DQ] else [c]) s)"

definition quoted :: "string \<Rightarrow> string" where
  "quoted s = [DQ] @ escape_quotes s @ [DQ]"

fun join_fields :: "string list \<Rightarrow> string" where
  "join_fields [] = []"
| "join_fields [f] = f"
| "join_fields (f # g # fs) = f @ [COMMA] @ join_fields (g # fs)"

section \<open>Bracketed genre lists\<close>

text \<open>The text of a list of names, each in single quotes and followed by a comma and a space.\<close>

definition quoted_items :: "string list \<Rightarrow> string" where
  "quoted_items gs = concat (map (\<lambda>g. [SQ] @ g @ [SQ] @ '', '') gs)"

text \<open>
  One pass through the body of the \<open>while i < len(inside)\<close> loop, on the state of the scan:
  the unread part \<open>inside[i:]\<close>, \<open>genres\<close>, \<open>cur\<close>, \<open>in_q\<close> and \<open>qchar\<close>. When nothing is
  unread the loop has ended and the state stays. \<open>scan_result\<close> is what the loop returns
  when it is run on from a state.
\<close>

type_synonym scan_state = "string \<times> string list \<times> string \<times> bool \<times> char option"

fun scan_step :: "scan_state \<Rightarrow> scan_state" where
  "scan_step ([], genres, cur, in_q, qchar) = ([], genres, cur, in_q, qchar)"
| "scan_step (ch # rest, genres, cur, in_q, qchar) =
     (if \<not> in_q \<and> (ch = DQ \<or> ch = SQ) then (rest, genres, [], True, Some ch)
      else if in_q then
        (if Some ch = qchar
         then (dropWhile (\<lambda>c. c = COMMA \<or> c = SPACE) rest, genres @ [cur], cur, False, None)
         else (rest, genres, cur @ [ch], in_q, qchar))
      else
        (let token = strip_chars [DQ, SQ] (strip (takeWhile (\<lambda>c. c \<noteq> COMMA) (ch # rest)));
             genres' = (if token \<noteq> [] then genres @ [token] else genres)
         in (drop 1 (dropWhile (\<lambda>c. c \<noteq> COMMA) (ch # rest)), genres', cur, in_q, qchar)))"

definition scan_result :: "scan_state \<Rightarrow> string list" where
  "scan_result s =
     (case s of (unread, genres, cur, in_q, qchar) \<Rightarrow> bracket_scan unread genres cur in_q qchar)"

text \<open>
  Lines 74 to 80: the text between the brackets, trimmed, when the field takes the bracketed
  branch.
\<close>

definition bracket_content :: "string \<Rightarrow> string option" where
  "bracket_content genre_field =
     (let genre_field = strip genre_field;
          genre_field = (if startswith genre_field DQ \<and> endswith genre_field DQ
                         then slice_1_m1 genre_field else genre_field)
      in if startswith genre_field (CHR ''['') \<and> endswith genre_field (CHR '']'')
         then Some (strip (slice_1_m1 genre_field)) else None)"

section \<open>Logical records\<close>

text \<open>
  \<open>join_nl\<close> is \<open>'\n'.join\<close>. \<open>records_loop\<close> is the loop of \<open>iter_csv_rows\<close> with the
  buffer itself where the source yields \<open>split_csv_line(buffer)\<close>: the logical records. A
  group of lines is complete when the quote count of its join is even and that of no
  shorter non-empty prefix is; a tail is open when the join of none of its non-empty
  prefixes has an even quote count.
\<close>

fun join_nl :: "string list \<Rightarrow> string" where
  "join_nl [] = []"
| "join_nl [l] = l"
| "join_nl (l # m # ls) = l @ [NL] @ join_nl (m # ls)"

fun records_loop :: "string \<Rightarrow> string list \<Rightarrow> string list" where
  "records_loop buffer [] = []"
| "records_loop buffer (raw_line # raw_lines) =
     (let line = rstrip_chars [NL] raw_line;
          buffer' = (if buffer \<noteq> [] then buffer @ [NL] @ line else line);
          quote_count = count_char DQ buffer'
      in if quote_count mod 2 = 0
         then buffer' # records_loop [] raw_lines
         else records_loop buffer' raw_lines)"

definition quotes_even :: "string \<Rightarrow> bool" where
  "quotes_even s \<longleftrightarrow> count_char DQ s mod 2 = 0"

definition complete_group :: "string list \<Rightarrow> bool" where
  "complete_group g \<longleftrightarrow>
     g \<noteq> [] \<and> quotes_even (join_nl g) \<and>
     (\<forall>k \<in> {1..<length g}. \<not> quotes_even (join_nl (take k g)))"

definition open_tail :: "string list \<Rightarrow> bool" where
  "open_tail t \<longleftrightarrow> (\<forall>k \<in> {1..length t}. \<not> quotes_even (join_nl (take k t)))"

section \<open>Facts about the Python primitives\<close>

lemma py_max_foldl:
  fixes key :: "'a \<Rightarrow> 'k::linorder"
  defines "step \<equiv> (\<lambda>best y. if key best < key y then y else best)"
  shows "foldl step x xs \<in> set (x # xs) \<and>
         (\<forall>y \<in> set (x # xs). key y \<le> key (foldl step x xs))"
proof (induction xs arbitrary: x)
  case Nil
  show ?case by simp
next
  case (Cons a xs)
  have ih: "foldl step (step x a) xs \<in> set (step x a # xs) \<and>
        (\<forall>y \<in> set (step x a # xs). key y \<le> key (foldl step (step x a) xs))"
    by (rule Cons.IH)
  have ge: "key x \<le> key (step x a)" "key a \<le> key (step x a)"
    by (auto simp: step_def)
  have mem: "step x a = x \<or> step x a = a" by (simp add: step_def)
  from ih ge mem show ?case
    by (auto intro: order_trans)
qed

lemma not_space_DQ: "\<not> py_isspace DQ"
  by (simp add: py_isspace_def)

section \<open>The resolver\<close>

text \<open>
  On a non-empty count mapping \<open>best_time\<close> returns an entry of greatest count, and among
  the entries of that count the one whose schedule string is greatest.
\<close>

lemma best_time_greatest:
  assumes "time_counts \<noteq> []"
  shows "\<exists>t c. best_time time_counts = Inr t \<and> (t, c) \<in> set time_counts \<and>
           (\<forall>(t', c') \<in> set time_counts. c' < c \<or> (c' = c \<and> t' \<le> t))"
proof -
  from assms obtain x xs where tc: "time_counts = x # xs" by (cases time_counts) auto
  define key :: "string \<times> int \<Rightarrow> int \<times> string" where "key = (\<lambda>x. (snd x, fst x))"
  define m where "m = foldl (\<lambda>best y. if key best < key y then y else best) x xs"
  have m: "m \<in> set (x # xs)" "\<forall>y \<in> set (x # xs). key y \<le> key m"
    using py_max_foldl [of key x xs] by (simp_all add: m_def)
  have bt: "best_time time_counts = Inr (fst m)"
    by (simp add: best_time_def tc m_def key_def)
  have "c' < snd m \<or> (c' = snd m \<and> t' \<le> fst m)"
    if "(t', c') \<in> set time_counts" for t' c'
  proof -
    from that m(2) tc have "key (t', c') \<le> key m" by blast
    then show ?thesis by (auto simp: key_def)
  qed
  then have "\<forall>(t', c') \<in> set time_counts. c' < snd m \<or> (c' = snd m \<and> t' \<le> fst m)"
    by blast
  moreover have "(fst m, snd m) \<in> set time_counts" using m(1) tc by simp
  ultimately show ?thesis using bt by blast
qed

text \<open>
  C1. The resolver is claimed to break a tie between schedule values of equal highest
  count by the lexicographically smallest string, so that \<open>{"8PM": 3, "7PM": 3}\<close> gives
  \<open>"7PM"\<close>. The source takes \<open>max\<close> over the key \<open>(count, time)\<close>, which is greatest in
  the string as well: in either insertion order the mapping gives \<open>"8PM"\<close>.
\<close>

theorem C1_tie_returns_largest_time:
  "best_time [(''8PM'', 3), (''7PM'', 3)] = Inr ''8PM'' \<and>
   best_time [(''7PM'', 3), (''8PM'', 3)] = Inr ''8PM''"
  by (simp add: best_time_def)

section \<open>The record splitter\<close>

text \<open>
  The guard of the post-processing step never changes the outcome: a field that begins
  and ends with a double quote has nothing for \<open>strip\<close> to remove, so every field is
  returned trimmed.
\<close>

lemma post_process_strip: "post_process f = strip f"
proof (cases "length f > 1 \<and> hd f = DQ \<and> last f = DQ")
  case True
  then obtain c cs where f: "f = c # cs" by (cases f) auto
  with True have h: "\<not> py_isspace c" by (simp add: not_space_DQ)
  from True have ne: "f \<noteq> []" by auto
  have l: "\<not> py_isspace (hd (rev f))" using True ne by (simp add: hd_rev not_space_DQ)
  have "dropWhile py_isspace f = f" using f h by simp
  moreover have "dropWhile py_isspace (rev f) = rev f" using l ne by (cases "rev f") auto
  ultimately have "strip f = f" by (simp add: strip_def)
  with True show ?thesis by (simp add: post_process_def)
next
  case False
  then show ?thesis by (auto simp add: post_process_def)
qed

lemma split_csv_line_all_trimmed:
  "split_csv_line line = map strip (scan_line line False [] [])"
  by (simp add: split_csv_line_def post_process_strip)

text \<open>
  C2. A field that was quoted in the record is claimed to be left untrimmed, so that the
  quoted field \<open>"  x  "\<close> keeps its surrounding whitespace. The scan has removed the
  delimiting quotes before the post-processing tests for them, the test fails, and the
  field comes back as \<open>x\<close>.
\<close>

theorem C2_quoted_field_is_trimmed:
  "split_csv_line ([DQ] @ ''  x  '' @ [DQ]) = [''x'']"
  by (simp add: split_csv_line_def post_process_def strip_def py_isspace_def)

section \<open>The genre list extractor\<close>

text \<open>
  C7. The field \<open>"['Action', 'Drama']"\<close>, a bracketed list of quoted names inside double
  quotes, and the plain text \<open>Action, Drama\<close> both give the genres \<open>Action\<close>, \<open>Drama\<close> in that
  order.
\<close>

theorem C7_extract_genres_examples:
  "extract_genres ([DQ] @ ''['' @ [SQ] @ ''Action'' @ [SQ] @ '', '' @ [SQ] @ ''Drama'' @ [SQ]
                   @ '']'' @ [DQ]) = [''Action'', ''Drama''] \<and>
   extract_genres ''Action, Drama'' = [''Action'', ''Drama'']"
  by (simp add: extract_genres_def strip_def strip_chars_def py_isspace_def startswith_def
      endswith_def slice_1_m1_def)

section \<open>Column resolution\<close>

lemma map_of_dict_set: "map_of (dict_set d k v) = (map_of d)(k \<mapsto> v)"
  by (induction d k v rule: dict_set.induct) auto

lemma keys_dict_set:
  "map fst (dict_set d k v) = (if k \<in> set (map fst d) then map fst d else map fst d @ [k])"
  by (induction d k v rule: dict_set.induct) auto

lemma distinct_dict_set: "distinct (map fst d) \<Longrightarrow> distinct (map fst (dict_set d k v))"
  by (simp add: keys_dict_set)

lemma first_idx_find:
  "first_idx p m = (case List.find p (map fst m) of None \<Rightarrow> None | Some n \<Rightarrow> map_of m n)"
proof (induction m)
  case Nil
  show ?case by (simp add: first_idx_def)
next
  case (Cons a m)
  obtain k v where a: "a = (k, v)" by (cases a)
  show ?case
  proof (cases "p k")
    case True
    then show ?thesis by (simp add: first_idx_def a)
  next
    case False
    have "first_idx p (a # m) = first_idx p m" using False by (simp add: first_idx_def a)
    also have "\<dots> = (case List.find p (map fst m) of None \<Rightarrow> None | Some n \<Rightarrow> map_of m n)"
      by (rule Cons.IH)
    also have "\<dots> = (case List.find p (map fst (a # m)) of None \<Rightarrow> None | Some n \<Rightarrow> map_of (a # m) n)"
      using False by (auto simp: a split: option.splits dest: find_Some_iff[THEN iffD1])
    finally show ?thesis .
  qed
qed

lemma find_append: "List.find p (xs @ ys) = (case List.find p xs of None \<Rightarrow> List.find p ys | Some x \<Rightarrow> Some x)"
  by (induction xs) auto

lemma find_keys_dict_set:
  "List.find p (map fst (dict_set d k v)) =
     (case List.find p (map fst d) of None \<Rightarrow> (if p k then Some k else None) | Some n \<Rightarrow> Some n)"
proof (cases "k \<in> set (map fst d)")
  case True
  then have "List.find p (map fst d) = None \<Longrightarrow> \<not> p k"
    by (auto simp: find_None_iff)
  with True show ?thesis by (auto simp: keys_dict_set split: option.splits)
next
  case False
  then show ?thesis by (simp add: keys_dict_set find_append split: option.splits)
qed

lemma find_keys_header:
  "List.find p (map fst (foldl hstep d (enumerate k xs))) =
     (case List.find p (map fst d) of None \<Rightarrow> List.find p (map strip xs) | Some n \<Rightarrow> Some n)"
  by (induction xs arbitrary: d k) (auto simp: find_keys_dict_set split: option.splits)

lemma map_of_header:
  "map_of (foldl hstep d (enumerate k xs)) n =
     (case last_pos n (map strip xs) of None \<Rightarrow> map_of d n | Some i \<Rightarrow> Some (k + i))"
  by (induction xs arbitrary: d k) (auto simp: map_of_dict_set split: option.splits)

lemma first_idx_header:
  "first_idx p (header_map_of header) = last_named p (map strip header)"
  by (simp add: first_idx_find header_map_of_def find_keys_header map_of_header last_named_def
      split: option.splits)

lemma resolve_columns_amended: "resolve_columns header = amended_columns header"
  by (simp add: resolve_columns_def amended_columns_def columns_of_def first_idx_header
      split: option.splits)

lemma last_pos_None: "last_pos n names = None \<longleftrightarrow> n \<notin> set names"
  by (induction names) (auto split: option.splits)

lemma last_pos_distinct:
  "distinct names \<Longrightarrow> List.find p names = Some n \<Longrightarrow> last_pos n names = first_pos p names"
proof (induction names)
  case Nil
  then show ?case by simp
next
  case (Cons a names)
  show ?case
  proof (cases "p a")
    case True
    with Cons.prems have "n = a" by simp
    moreover have "last_pos a names = None" using Cons.prems(1)
      by (simp add: last_pos_None)
    ultimately show ?thesis using True by simp
  next
    case False
    with Cons.prems have f: "List.find p names = Some n" by simp
    then have "n \<in> set names" "p n" by (auto simp: find_Some_iff)
    then obtain i where "last_pos n names = Some i"
      using last_pos_None [of n names] by (cases "last_pos n names") auto
    moreover have "last_pos n names = first_pos p names"
      using Cons.IH [OF _ f] Cons.prems(1) by simp
    ultimately have "first_pos p names = Some i" by simp
    with \<open>last_pos n names = Some i\<close> False show ?thesis by simp
  qed
qed

lemma first_pos_None: "first_pos p names = None \<longleftrightarrow> List.find p names = None"
  by (induction names) auto

lemma last_named_distinct:
  assumes "distinct names"
  shows "last_named p names = first_pos p names"
proof (cases "List.find p names")
  case None
  then have "first_pos p names = None" by (simp add: first_pos_None)
  with None show ?thesis by (simp add: last_named_def)
next
  case (Some n)
  with assms show ?thesis by (simp add: last_named_def last_pos_distinct)
qed

lemma last_named_None: "last_named p names = None \<longleftrightarrow> \<not> (\<exists>n \<in> set names. p n)"
proof (cases "List.find p names")
  case None
  moreover from None have "\<not> (\<exists>n \<in> set names. p n)" by (simp add: find_None_iff)
  ultimately show ?thesis by (simp add: last_named_def)
next
  case (Some n)
  then have "n \<in> set names" "p n" by (auto simp: find_Some_iff)
  moreover from this obtain i where "last_pos n names = Some i"
    using last_pos_None [of n names] by (cases "last_pos n names") auto
  ultimately show ?thesis using Some by (auto simp: last_named_def)
qed

text \<open>
  C3, as stated: the genre column is the first header field, in header order, whose name
  contains "genre", and the schedule column the first whose name contains "schedule" and
  "time". With the name \<open>Genres\<close> at positions 0 and 2 the source resolves the genre column to
  position 2, because the header mapping keeps one position per trimmed name, the last.
\<close>

theorem C3_first_position_counterexample:
  "resolve_columns [''Genres'', ''Schedule (time)'', ''Genres''] = Inr (2, 1) \<and>
   claimed_columns [''Genres'', ''Schedule (time)'', ''Genres''] = Inr (0, 1) \<and>
   resolve_columns [''Genres'', ''Schedule (time)'', ''Genres'']
     \<noteq> claimed_columns [''Genres'', ''Schedule (time)'', ''Genres'']"
  by code_simp

text \<open>
  C3, amended: the genre column is the last position that carries the first trimmed header
  name containing "genre", the schedule column the last position that carries the first
  trimmed name containing "schedule" and "time"; where the trimmed header names are
  pairwise distinct these are the first matching positions. A header without a genre name
  raises the genre error, whether or not it has a schedule name; a header with a genre name
  and without a schedule name raises the schedule error; the two errors differ.
\<close>

theorem C3_columns:
  "resolve_columns header = amended_columns header \<and>
   (distinct (map strip header) \<longrightarrow> resolve_columns header = claimed_columns header) \<and>
   (\<not> (\<exists>h \<in> set header. is_genre_name (strip h)) \<longrightarrow> resolve_columns header = Inl genres_error) \<and>
   ((\<exists>h \<in> set header. is_genre_name (strip h)) \<and> \<not> (\<exists>h \<in> set header. is_schedule_name (strip h))
      \<longrightarrow> resolve_columns header = Inl schedule_error) \<and>
   genres_error \<noteq> schedule_error"
proof -
  have a: "resolve_columns header = amended_columns header" by (rule resolve_columns_amended)
  have g: "last_named is_genre_name (map strip header) = None
             \<longleftrightarrow> \<not> (\<exists>h \<in> set header. is_genre_name (strip h))"
    by (simp add: last_named_None)
  have s: "last_named is_schedule_name (map strip header) = None
             \<longleftrightarrow> \<not> (\<exists>h \<in> set header. is_schedule_name (strip h))"
    by (simp add: last_named_None)
  have d: "distinct (map strip header) \<Longrightarrow> amended_columns header = claimed_columns header"
    by (simp add: amended_columns_def claimed_columns_def last_named_distinct)
  have e1: "\<not> (\<exists>h \<in> set header. is_genre_name (strip h)) \<Longrightarrow> amended_columns header = Inl genres_error"
    using g by (simp add: amended_columns_def columns_of_def)
  have e2: "(\<exists>h \<in> set header. is_genre_name (strip h)) \<Longrightarrow> \<not> (\<exists>h \<in> set header. is_schedule_name (strip h))
      \<Longrightarrow> amended_columns header = Inl schedule_error"
    using g s by (auto simp add: amended_columns_def columns_of_def split: option.splits)
  show ?thesis using a d e1 e2 by simp
qed

theorem C3_columns_witness:
  "distinct (map strip [''Genres'', ''Schedule (time)'']) \<and>
   resolve_columns [''Genres'', ''Schedule (time)''] = Inr (0, 1) \<and>
   \<not> (\<exists>h \<in> set [''Title'', ''Rating'']. is_genre_name (strip h)) \<and>
   resolve_columns [''Title'', ''Rating''] = Inl genres_error \<and>
   (\<exists>h \<in> set [''Genres'', ''Rating'']. is_genre_name (strip h)) \<and>
   \<not> (\<exists>h \<in> set [''Genres'', ''Rating'']. is_schedule_name (strip h)) \<and>
   resolve_columns [''Genres'', ''Rating''] = Inl schedule_error"
proof -
  have d: "distinct (map strip [''Genres'', ''Schedule (time)''])" by code_simp
  have c: "claimed_columns [''Genres'', ''Schedule (time)''] = Inr (0, 1)" by code_simp
  have g: "\<not> (\<exists>h \<in> set [''Title'', ''Rating'']. is_genre_name (strip h))" by code_simp
  have g': "\<exists>h \<in> set [''Genres'', ''Rating'']. is_genre_name (strip h)" by code_simp
  have s: "\<not> (\<exists>h \<in> set [''Genres'', ''Rating'']. is_schedule_name (strip h))" by code_simp
  have 1: "resolve_columns [''Genres'', ''Schedule (time)''] = Inr (0, 1)"
    using C3_columns [of "[''Genres'', ''Schedule (time)'']"] d c by metis
  have 2: "resolve_columns [''Title'', ''Rating''] = Inl genres_error"
    using C3_columns [of "[''Title'', ''Rating'']"] g by blast
  have 3: "resolve_columns [''Genres'', ''Rating''] = Inl schedule_error"
    using C3_columns [of "[''Genres'', ''Rating'']"] g' s by blast
  show ?thesis
    by (intro conjI d 1 g 2 g' s 3)
qed

section \<open>The aggregator\<close>

lemma set_dict_set: "set (dict_set d k v) \<subseteq> insert (k, v) (set d)"
  by (induction d k v rule: dict_set.induct) auto

lemma dict_set_not_Nil: "dict_set d k v \<noteq> []"
  by (induction d k v rule: dict_set.induct) auto

lemma keys_set_dict_set: "fst ` set (dict_set d k v) = insert k (fst ` set d)"
  by (induction d k v rule: dict_set.induct) auto



lemma keys_count_genre:
  "fst ` set (count_genre time counts genre) =
     fst ` set counts \<union> (if genre = [] then {} else {genre})"
  by (simp add: count_genre_def keys_set_dict_set Let_def)

lemma keys_foldl_count_genre:
  "fst ` set (foldl (count_genre time) counts genres) =
     fst ` set counts \<union> {genre \<in> set genres. genre \<noteq> []}"
proof (induction genres arbitrary: counts)
  case Nil
  show ?case by simp
next
  case (Cons a genres)
  have "{genre \<in> set (a # genres). genre \<noteq> []} =
          (if a = [] then {} else {a}) \<union> {genre \<in> set genres. genre \<noteq> []}"
    by auto
  then show ?case by (simp add: Cons.IH keys_count_genre Un_assoc)
qed

lemma table_ok_count_genre:
  assumes "table_ok counts"
  shows "table_ok (count_genre time counts genre)"
proof (cases "genre = []")
  case True
  with assms show ?thesis by (simp add: count_genre_def)
next
  case False
  define gc where "gc = (case dict_get counts genre of None \<Rightarrow> [] | Some gc \<Rightarrow> gc)"
  define n where "n = (case dict_get gc time of None \<Rightarrow> 0 | Some c \<Rightarrow> c)"
  have cg: "count_genre time counts genre = dict_set counts genre (dict_set gc time (n + 1))"
    using False by (simp add: count_genre_def gc_def n_def Let_def)
  have gc: "\<forall>(t, c) \<in> set gc. 1 \<le> c"
  proof (cases "dict_get counts genre")
    case None
    then show ?thesis by (simp add: gc_def)
  next
    case (Some tc)
    then have "(genre, tc) \<in> set counts" by (simp add: dict_get_def map_of_SomeD)
    with assms Some show ?thesis by (auto simp: table_ok_def gc_def)
  qed
  have n: "0 \<le> n"
  proof (cases "dict_get gc time")
    case None
    then show ?thesis by (simp add: n_def)
  next
    case (Some c)
    then have "(time, c) \<in> set gc" by (simp add: dict_get_def map_of_SomeD)
    with gc Some show ?thesis by (auto simp: n_def)
  qed
  have new: "\<forall>(t, c) \<in> set (dict_set gc time (n + 1)). 1 \<le> c"
    using set_dict_set [of gc time "n + 1"] gc n by auto
  have "tc \<noteq> [] \<and> (\<forall>(t, c) \<in> set tc. 1 \<le> c)"
    if "(g, tc) \<in> set (dict_set counts genre (dict_set gc time (n + 1)))" for g tc
  proof -
    from that set_dict_set [of counts genre "dict_set gc time (n + 1)"]
    have "(g, tc) = (genre, dict_set gc time (n + 1)) \<or> (g, tc) \<in> set counts" by blast
    then show ?thesis
    proof
      assume "(g, tc) = (genre, dict_set gc time (n + 1))"
      then show ?thesis using new by (simp add: dict_set_not_Nil)
    next
      assume "(g, tc) \<in> set counts"
      with assms show ?thesis unfolding table_ok_def by blast
    qed
  qed
  then have "\<forall>(g, tc) \<in> set (dict_set counts genre (dict_set gc time (n + 1))).
          tc \<noteq> [] \<and> (\<forall>(t, c) \<in> set tc. 1 \<le> c)"
    by blast
  moreover have "distinct (map fst (dict_set counts genre (dict_set gc time (n + 1))))"
    using assms by (simp add: table_ok_def distinct_dict_set)
  ultimately show ?thesis by (simp add: cg table_ok_def)
qed

lemma table_ok_foldl_count_genre:
  "table_ok counts \<Longrightarrow> table_ok (foldl (count_genre time) counts genres)"
  by (induction genres arbitrary: counts) (simp_all add: table_ok_count_genre)

lemma count_row_short: "length row \<le> max g s \<Longrightarrow> count_row g s counts row = counts"
  by (simp only: count_row_def if_True)

lemma count_row_no_time:
  assumes "max g s < length row" and "strip (row ! s) = []"
  shows "count_row g s counts row = counts"
proof -
  from assms(1) have n: "\<not> length row \<le> max g s" by arith
  show ?thesis unfolding count_row_def Let_def using n assms(2)
    by (simp only: if_False if_True simp_thms)
qed

lemma count_row_counted:
  assumes "max g s < length row" and "strip (row ! s) \<noteq> []"
  shows "count_row g s counts row =
           foldl (count_genre (strip (row ! s))) counts (extract_genres (row ! g))"
proof -
  from assms(1) have n: "\<not> length row \<le> max g s" by arith
  show ?thesis unfolding count_row_def Let_def using n assms(2)
    by (simp only: if_False)
qed

lemma count_row_cases:
  obtains (short) "length row \<le> max g s" "count_row g s counts row = counts"
        "\<not> row_counted g s row"
  | (no_time) "max g s < length row" "strip (row ! s) = []"
        "count_row g s counts row = counts" "\<not> row_counted g s row"
  | (counted) "max g s < length row" "strip (row ! s) \<noteq> []"
        "count_row g s counts row =
           foldl (count_genre (strip (row ! s))) counts (extract_genres (row ! g))"
        "row_counted g s row"
proof (cases "length row \<le> max g s")
  case True
  then have "\<not> max g s < length row" by arith
  then have "\<not> row_counted g s row" unfolding row_counted_def by blast
  with True show ?thesis using short count_row_short by blast
next
  case False
  then have lt: "max g s < length row" by arith
  show ?thesis
  proof (cases "strip (row ! s) = []")
    case True
    then have "\<not> row_counted g s row" unfolding row_counted_def by blast
    with lt True show ?thesis using no_time count_row_no_time by blast
  next
    case ne: False
    with lt have "row_counted g s row" unfolding row_counted_def by blast
    with lt ne show ?thesis using counted count_row_counted by blast
  qed
qed

lemma table_ok_count_row:
  assumes "table_ok counts"
  shows "table_ok (count_row g s counts row)"
proof (cases rule: count_row_cases [of row g s counts])
  case short
  with assms show ?thesis by simp
next
  case no_time
  with assms show ?thesis by simp
next
  case counted
  with assms show ?thesis by (simp add: table_ok_foldl_count_genre)
qed

lemma keys_count_row:
  "fst ` set (count_row g s counts row) =
     fst ` set counts \<union>
       (if row_counted g s row then {genre \<in> set (extract_genres (row ! g)). genre \<noteq> []} else {})"
proof (cases rule: count_row_cases [of row g s counts])
  case short
  then show ?thesis by simp
next
  case no_time
  then show ?thesis by simp
next
  case counted
  then show ?thesis by (simp add: keys_foldl_count_genre)
qed

lemma table_ok_foldl_count_row:
  "table_ok counts \<Longrightarrow> table_ok (foldl (count_row g s) counts rows)"
  by (induction rows arbitrary: counts) (simp_all add: table_ok_count_row)

lemma keys_foldl_count_row:
  "fst ` set (foldl (count_row g s) counts rows) =
     fst ` set counts \<union> set (genres_seen g s rows)"
proof (induction rows arbitrary: counts)
  case Nil
  show ?case by (simp add: genres_seen_def)
next
  case (Cons row rows)
  have "set (genres_seen g s (row # rows)) =
          (if row_counted g s row then {genre \<in> set (extract_genres (row ! g)). genre \<noteq> []} else {})
          \<union> set (genres_seen g s rows)"
    by (auto simp: genres_seen_def)
  then show ?case by (simp add: Cons.IH keys_count_row Un_assoc)
qed

lemma table_ok_Nil: "table_ok []"
  by (simp add: table_ok_def)

lemma table_ok_aggregate: "table_ok (aggregate g s rows)"
  unfolding aggregate_def by (rule table_ok_foldl_count_row) (rule table_ok_Nil)

lemma keys_aggregate: "fst ` set (aggregate g s rows) = set (genres_seen g s rows)"
  by (simp add: aggregate_def keys_foldl_count_row)

lemma best_time_total: "tc \<noteq> [] \<Longrightarrow> \<exists>t. best_time tc = Inr t"
  by (cases tc) (simp_all add: best_time_def)

lemma resolve_loop_total:
  assumes "\<forall>(genre, tc) \<in> set counts. tc \<noteq> []"
    and "distinct (map fst result @ map fst counts)"
  shows "\<exists>result'. resolve_loop counts result = Inr result' \<and>
           map fst result' = map fst result @ map fst counts"
  using assms
proof (induction counts arbitrary: result)
  case Nil
  then show ?case by simp
next
  case (Cons a counts)
  obtain genre tc where a: "a = (genre, tc)" by (cases a)
  with Cons.prems(1) have "tc \<noteq> []" by simp
  then obtain t where t: "best_time tc = Inr t" using best_time_total by blast
  have notin: "genre \<notin> set (map fst result)" using Cons.prems(2) a by auto
  then have keys: "map fst (dict_set result genre t) = map fst result @ [genre]"
    by (simp add: keys_dict_set)
  have "\<exists>result'. resolve_loop counts (dict_set result genre t) = Inr result' \<and>
           map fst result' = map fst (dict_set result genre t) @ map fst counts"
  proof (rule Cons.IH)
    show "\<forall>(genre, tc) \<in> set counts. tc \<noteq> []" using Cons.prems(1) by simp
    show "distinct (map fst (dict_set result genre t) @ map fst counts)"
      using Cons.prems(2) a keys by simp
  qed
  then show ?case using a t keys by simp
qed



section \<open>The frequency table and the result mapping\<close>

text \<open>
  C9. Whenever the input has a header in which both columns are found, every genre in the
  frequency table has a schedule entry, and all its entries have a count of at least 1; the
  function returns a result mapping with exactly one entry per genre of the table, in the
  table's order, and these are the non-empty genres of the counted rows; and \<open>best_time\<close>
  returns a schedule value, never an error, on every non-empty count mapping.
\<close>

theorem C9_invariants:
  assumes "iter_csv_rows raw_lines = header # rows"
    and "resolve_columns header = Inr (g, s)"
  shows "(\<forall>(genre, tc) \<in> set (aggregate g s rows).
            (\<exists>(t, c) \<in> set tc. 1 \<le> c) \<and> (\<forall>(t, c) \<in> set tc. 1 \<le> c)) \<and>
         (\<exists>result. get_most_common_schedule_by_genre raw_lines = Inr result \<and>
            distinct (map fst result) \<and>
            map fst result = map fst (aggregate g s rows) \<and>
            set (map fst result) = set (genres_seen g s rows)) \<and>
         (\<forall>tc. tc \<noteq> [] \<longrightarrow> (\<exists>t. best_time tc = Inr t))"
proof -
  have ok: "table_ok (aggregate g s rows)" by (rule table_ok_aggregate)
  have 1: "\<forall>(genre, tc) \<in> set (aggregate g s rows).
            (\<exists>(t, c) \<in> set tc. 1 \<le> c) \<and> (\<forall>(t, c) \<in> set tc. 1 \<le> c)"
  proof (intro ballI, clarify)
    fix genre tc assume mem: "(genre, tc) \<in> set (aggregate g s rows)"
    from ok mem have ne: "tc \<noteq> []" unfolding table_ok_def by blast
    from ok mem have all: "\<forall>(t, c) \<in> set tc. 1 \<le> c" unfolding table_ok_def by blast
    from ne obtain x where x: "x \<in> set tc" by (cases tc) auto
    have "case x of (t, c) \<Rightarrow> 1 \<le> c" by (rule bspec [OF all x])
    with x have "\<exists>(t, c) \<in> set tc. 1 \<le> c" by (rule bexI [rotated])
    with all show "(\<exists>(t, c) \<in> set tc. 1 \<le> c) \<and> (\<forall>(t, c) \<in> set tc. 1 \<le> c)"
      by (rule conjI [rotated])
  qed
  have ne: "\<forall>(genre, tc) \<in> set (aggregate g s rows). tc \<noteq> []"
    using ok unfolding table_ok_def by blast
  have di: "distinct (map fst (aggregate g s rows))"
    using ok unfolding table_ok_def by blast
  from di have di': "distinct (map fst ([] :: (string \<times> string) list) @ map fst (aggregate g s rows))"
    by simp
  from resolve_loop_total [OF ne di']
  obtain result where r: "resolve_loop (aggregate g s rows) [] = Inr result"
    and k': "map fst result = map fst ([] :: (string \<times> string) list) @ map fst (aggregate g s rows)"
    by blast
  from k' have k: "map fst result = map fst (aggregate g s rows)" by simp
  have gm: "get_most_common_schedule_by_genre raw_lines = Inr result"
    unfolding get_most_common_schedule_by_genre_def by (simp add: assms r)
  have d: "distinct (map fst result)" by (simp only: k di)
  have ks: "set (map fst result) = set (genres_seen g s rows)"
    by (simp only: k set_map keys_aggregate)
  have 2: "\<exists>result. get_most_common_schedule_by_genre raw_lines = Inr result \<and>
            distinct (map fst result) \<and>
            map fst result = map fst (aggregate g s rows) \<and>
            set (map fst result) = set (genres_seen g s rows)"
    by (intro exI [of _ result] conjI gm d k ks)
  have 3: "\<forall>tc. tc \<noteq> [] \<longrightarrow> (\<exists>t. best_time tc = Inr t)"
    using best_time_total by blast
  show ?thesis by (intro conjI 1 2 3)
qed

theorem C9_invariants_witness:
  "iter_csv_rows
     [''Genres,Schedule (time)'' @ [NL],
      [DQ] @ ''['' @ [SQ] @ ''Comedy'' @ [SQ] @ '']'' @ [DQ] @ '',8PM'' @ [NL],
      [DQ] @ ''['' @ [SQ] @ ''Comedy'' @ [SQ] @ '']'' @ [DQ] @ '',9PM'' @ [NL],
      [DQ] @ ''['' @ [SQ] @ ''Comedy'' @ [SQ] @ '']'' @ [DQ] @ '',8PM'' @ [NL]]
     = [''Genres'', ''Schedule (time)'']
       # [[''['' @ [SQ] @ ''Comedy'' @ [SQ] @ '']'', ''8PM''],
          [''['' @ [SQ] @ ''Comedy'' @ [SQ] @ '']'', ''9PM''],
          [''['' @ [SQ] @ ''Comedy'' @ [SQ] @ '']'', ''8PM'']] \<and>
   resolve_columns [''Genres'', ''Schedule (time)''] = Inr (0, 1) \<and>
   (\<exists>result.
      get_most_common_schedule_by_genre
        [''Genres,Schedule (time)'' @ [NL],
         [DQ] @ ''['' @ [SQ] @ ''Comedy'' @ [SQ] @ '']'' @ [DQ] @ '',8PM'' @ [NL],
         [DQ] @ ''['' @ [SQ] @ ''Comedy'' @ [SQ] @ '']'' @ [DQ] @ '',9PM'' @ [NL],
         [DQ] @ ''['' @ [SQ] @ ''Comedy'' @ [SQ] @ '']'' @ [DQ] @ '',8PM'' @ [NL]]
        = Inr result \<and> distinct (map fst result)) \<and>
   (\<exists>t. best_time [(''8PM'', 2), (''9PM'', 1)] = Inr t)"
proof -
  let ?lines = "[''Genres,Schedule (time)'' @ [NL],
      [DQ] @ ''['' @ [SQ] @ ''Comedy'' @ [SQ] @ '']'' @ [DQ] @ '',8PM'' @ [NL],
      [DQ] @ ''['' @ [SQ] @ ''Comedy'' @ [SQ] @ '']'' @ [DQ] @ '',9PM'' @ [NL],
      [DQ] @ ''['' @ [SQ] @ ''Comedy'' @ [SQ] @ '']'' @ [DQ] @ '',8PM'' @ [NL]]"
  let ?rows = "[[''['' @ [SQ] @ ''Comedy'' @ [SQ] @ '']'', ''8PM''],
          [''['' @ [SQ] @ ''Comedy'' @ [SQ] @ '']'', ''9PM''],
          [''['' @ [SQ] @ ''Comedy'' @ [SQ] @ '']'', ''8PM'']]"
  have h1: "iter_csv_rows ?lines = [''Genres'', ''Schedule (time)''] # ?rows" by code_simp
  have h2: "resolve_columns [''Genres'', ''Schedule (time)''] = Inr (0, 1)" by code_simp
  note c = C9_invariants [OF h1 h2]
  from c have "\<exists>result. get_most_common_schedule_by_genre ?lines = Inr result \<and>
      distinct (map fst result)"
    by blast
  moreover from c have "\<exists>t. best_time [(''8PM'', 2), (''9PM'', 1)] = Inr t"
    by blast
  ultimately show ?thesis using h1 h2 by blast
qed

section \<open>Quoted fields\<close>

text \<open>
  In a record of quoted fields the splitter returns one field per quoted field, with the
  doubled quotes collapsed and the commas inside kept, and trims it.
\<close>

lemma scan_escaped:
  assumes "rest = [] \<or> hd rest \<noteq> DQ"
  shows "scan_line (escape_quotes s @ DQ # rest) True cur fields
           = scan_line rest False (cur @ s) fields"
proof (induction s arbitrary: cur)
  case Nil
  from assms show ?case by (cases rest) (simp_all add: escape_quotes_def)
next
  case (Cons c s)
  have e: "escape_quotes (c # s) = (if c = DQ then [DQ, DQ] else [c]) @ escape_quotes s"
    by (simp add: escape_quotes_def)
  show ?case
  proof (cases "c = DQ")
    case True
    with e have "scan_line (escape_quotes (c # s) @ DQ # rest) True cur fields
        = scan_line (escape_quotes s @ DQ # rest) True (cur @ [DQ]) fields"
      by simp
    also have "\<dots> = scan_line rest False ((cur @ [DQ]) @ s) fields" by (rule Cons.IH)
    finally show ?thesis using True by simp
  next
    case False
    with e have "scan_line (escape_quotes (c # s) @ DQ # rest) True cur fields
        = scan_line (escape_quotes s @ DQ # rest) True (cur @ [c]) fields"
      by simp
    also have "\<dots> = scan_line rest False ((cur @ [c]) @ s) fields" by (rule Cons.IH)
    finally show ?thesis by simp
  qed
qed

lemma scan_quoted_fields:
  "scan_line (join_fields (map quoted (f # fs))) False [] fields = fields @ f # fs"
proof (induction fs arbitrary: f fields)
  case Nil
  have "scan_line (quoted f) False [] fields = scan_line (escape_quotes f @ DQ # []) True [] fields"
    by (simp add: quoted_def)
  also have "\<dots> = scan_line [] False ([] @ f) fields" by (rule scan_escaped) simp
  finally show ?case by simp
next
  case (Cons g fs)
  let ?J = "join_fields (map quoted (g # fs))"
  have "scan_line (join_fields (map quoted (f # g # fs))) False [] fields
          = scan_line (escape_quotes f @ DQ # COMMA # ?J) True [] fields"
    by (simp add: quoted_def)
  also have "\<dots> = scan_line (COMMA # ?J) False ([] @ f) fields" by (rule scan_escaped) simp
  also have "\<dots> = scan_line ?J False [] (fields @ [f])" by simp
  also have "\<dots> = (fields @ [f]) @ g # fs" by (rule Cons.IH)
  finally show ?case by simp
qed

lemma split_csv_line_quoted_record:
  "split_csv_line (join_fields (map quoted (f # fs))) = map strip (f # fs)"
  using scan_quoted_fields [of f fs "[]"] by (simp add: split_csv_line_all_trimmed)

text \<open>
  C6. A quoted field with a comma inside is claimed to come back as one field equal to its
  unescaped content, with every doubled double quote collapsed to one. The record
  \<open>a," b,c ",d\<close> gives \<open>b,c\<close> for the content \<open> b,c \<close>, and \<open>a," b""c ",d\<close> gives \<open>b"c\<close>:
  the field is not split and the pair is collapsed, and the content is trimmed.
\<close>

theorem C6_quoted_field_content_is_trimmed:
  "split_csv_line (''a,'' @ [DQ] @ '' b,c '' @ [DQ] @ '',d'') = [''a'', ''b,c'', ''d''] \<and>
   split_csv_line (''a,'' @ [DQ] @ '' b'' @ [DQ, DQ] @ ''c '' @ [DQ] @ '',d'')
     = [''a'', ''b'' @ [DQ] @ ''c'', ''d'']"
  by (simp add: split_csv_line_def post_process_def strip_def py_isspace_def)

section \<open>An input without records\<close>

text \<open>
  C10. When the input yields no logical record, as an empty file does, the function returns
  the empty mapping and raises no error, and \<open>_main\<close> called with the path of that file
  prints the no-valid-data message and returns 1.
\<close>

theorem C10_no_records:
  assumes "iter_csv_rows raw_lines = []"
  shows "get_most_common_schedule_by_genre raw_lines = Inr [] \<and>
         (\<forall>files prog path rest. files path = Some raw_lines \<longrightarrow>
            main files (prog # path # rest) = ([No_valid_data], 1))"
proof -
  have r: "get_most_common_schedule_by_genre raw_lines = Inr []"
    by (simp add: get_most_common_schedule_by_genre_def assms)
  have "main files (prog # path # rest) = ([No_valid_data], 1)"
    if "files path = Some raw_lines" for files prog path rest
    by (simp add: main_def that r)
  with r show ?thesis by blast
qed

theorem C10_no_records_witness:
  "iter_csv_rows [] = [] \<and> get_most_common_schedule_by_genre [] = Inr [] \<and>
   iter_csv_rows [[DQ] @ ''abc'' @ [NL], ''def'' @ [NL]] = [] \<and>
   main (\<lambda>p. if p = ''t.csv'' then Some [] else None) [''prog'', ''t.csv'']
     = ([No_valid_data], 1)"
proof -
  have h: "iter_csv_rows [] = []" by (simp add: iter_csv_rows_def)
  have h': "iter_csv_rows [[DQ] @ ''abc'' @ [NL], ''def'' @ [NL]] = []" by code_simp
  from C10_no_records [OF h] have 1: "get_most_common_schedule_by_genre [] = Inr []"
    and a: "\<forall>files prog path rest. files path = Some [] \<longrightarrow>
            main files (prog # path # rest) = ([No_valid_data], 1)"
    by blast+
  have 2: "main (\<lambda>p. if p = ''t.csv'' then Some [] else None) [''prog'', ''t.csv'']
     = ([No_valid_data], 1)"
    using a [rule_format, of "\<lambda>p. if p = ''t.csv'' then Some [] else None" "''t.csv''"
        "''prog''" "[]"]
    by simp
  show ?thesis by (intro conjI h 1 h' 2)
qed

section \<open>Unterminated quoted tokens\<close>

text \<open>
  Inside a quoted token the scan only looks for the closing quote character; when the rest
  of the text has none, the loop runs to the end and returns the genres it had.
\<close>

lemma bracket_scan_open_token:
  "q \<notin> set rest \<Longrightarrow> bracket_scan rest genres cur True (Some q) = genres"
  by (induction rest arbitrary: cur) auto

lemma bracket_scan_closed_token:
  "q \<notin> set g \<Longrightarrow>
   bracket_scan (g @ q # rest) genres cur True (Some q)
     = bracket_scan (dropWhile (\<lambda>c. c = COMMA \<or> c = SPACE) rest)
         (genres @ [cur @ g]) (cur @ g) False None"
  by (induction g arbitrary: cur) auto

lemma bracket_scan_quoted_items:
  assumes "\<forall>g \<in> set gs. SQ \<notin> set g" and "q = SQ \<or> q = DQ" and "q \<notin> set rest"
  shows "bracket_scan (quoted_items gs @ q # rest) genres cur False qchar = genres @ gs"
  using assms(1)
proof (induction gs arbitrary: genres cur qchar)
  case Nil
  have "bracket_scan (q # rest) genres cur False qchar
          = bracket_scan rest genres [] True (Some q)"
    using assms(2) by auto
  also have "\<dots> = genres" using assms(3) by (rule bracket_scan_open_token)
  finally show ?case by (simp add: quoted_items_def)
next
  case (Cons g gs)
  let ?tail = "quoted_items gs @ q # rest"
  have g: "SQ \<notin> set g" using Cons.prems by simp
  have hd_tail: "dropWhile (\<lambda>c. c = COMMA \<or> c = SPACE) (COMMA # SPACE # ?tail) = ?tail"
    using assms(2) by (cases gs) (auto simp: quoted_items_def)
  have "bracket_scan (quoted_items (g # gs) @ q # rest) genres cur False qchar
          = bracket_scan (g @ SQ # COMMA # SPACE # ?tail) genres [] True (Some SQ)"
    by (simp add: quoted_items_def)
  also have "\<dots> = bracket_scan (dropWhile (\<lambda>c. c = COMMA \<or> c = SPACE) (COMMA # SPACE # ?tail))
                     (genres @ [[] @ g]) ([] @ g) False None"
    using g by (rule bracket_scan_closed_token)
  also have "\<dots> = bracket_scan ?tail (genres @ [g]) g False None"
    by (simp only: hd_tail append_Nil)
  also have "\<dots> = (genres @ [g]) @ gs"
    using Cons.prems by (intro Cons.IH) simp
  finally show ?case by simp
qed

lemma strip_keep:
  assumes "xs \<noteq> []" and "\<not> py_isspace (hd xs)" and "\<not> py_isspace (last xs)"
  shows "strip (xs @ rest) = xs @ rev (dropWhile py_isspace (rev rest))"
proof -
  from assms(1,2) have l: "dropWhile py_isspace (xs @ rest) = xs @ rest"
    by (cases xs) auto
  from assms(1,3) have "dropWhile py_isspace (rev xs) = rev xs"
    by (cases "rev xs") (auto simp: last_rev [symmetric] hd_rev)
  then have "dropWhile py_isspace (rev rest @ rev xs) = dropWhile py_isspace (rev rest) @ rev xs"
    by (simp add: dropWhile_append)
  with l show ?thesis by (simp add: strip_def)
qed

lemma not_space_chars:
  "\<not> py_isspace SQ" "\<not> py_isspace (CHR ''['')" "\<not> py_isspace (CHR '']'')"
  by (simp_all add: py_isspace_def)

text \<open>
  A bracketed field whose content is a list of properly quoted names followed by a token
  that is opened and never closed gives exactly those names.
\<close>

lemma extract_genres_quoted_items:
  assumes "q = SQ \<or> q = DQ" and "q \<notin> set rest" and "\<forall>g \<in> set gs. SQ \<notin> set g"
  shows "extract_genres (''['' @ quoted_items gs @ [q] @ rest @ '']'') = gs"
proof -
  let ?mid = "quoted_items gs @ [q] @ rest"
  let ?field = "CHR ''['' # ?mid @ [CHR '']'']"
  have q: "\<not> py_isspace q" using assms(1) not_space_DQ not_space_chars(1) by blast
  have "strip (?field @ []) = ?field @ rev (dropWhile py_isspace (rev []))"
    by (rule strip_keep) (simp_all add: not_space_chars)
  then have s: "strip ?field = ?field" by simp
  have hd_items: "\<not> py_isspace (hd (quoted_items gs @ [q]))"
    using q by (cases gs) (simp_all add: quoted_items_def not_space_chars)
  have "strip ((quoted_items gs @ [q]) @ rest)
          = (quoted_items gs @ [q]) @ rev (dropWhile py_isspace (rev rest))"
    using hd_items q by (intro strip_keep) simp_all
  then have inside: "strip ?mid = quoted_items gs @ q # rev (dropWhile py_isspace (rev rest))"
    by simp
  have nq: "q \<notin> set (rev (dropWhile py_isspace (rev rest)))"
    using assms(2) set_dropWhileD [of q py_isspace "rev rest"] by auto
  have "extract_genres ?field = bracket_scan (strip ?mid) [] [] False None"
    unfolding extract_genres_def s
    by (simp add: startswith_def endswith_def slice_1_m1_def butlast_append)
  also have "\<dots> = [] @ gs"
    unfolding inside using assms(3,1) nq by (rule bracket_scan_quoted_items)
  finally show ?thesis by simp
qed

text \<open>
  The loop is the repetition of its pass, and a field that takes the bracketed branch is
  scanned from the start of its content.
\<close>

lemma scan_result_step: "scan_result (scan_step s) = scan_result s"
proof -
  obtain unread genres cur in_q qchar where s: "s = (unread, genres, cur, in_q, qchar)"
    by (cases s)
  show ?thesis
  proof (cases unread)
    case Nil
    with s show ?thesis by simp
  next
    case (Cons ch rest)
    with s show ?thesis by (simp add: scan_result_def Let_def)
  qed
qed

lemma scan_result_steps: "scan_result ((scan_step ^^ n) s) = scan_result s"
  by (induction n) (simp_all add: scan_result_step)

lemma extract_genres_bracketed:
  assumes "bracket_content genre_field = Some inside"
  shows "extract_genres genre_field = bracket_scan inside [] [] False None"
proof -
  define f where "f = (if startswith (strip genre_field) DQ \<and> endswith (strip genre_field) DQ
                         then slice_1_m1 (strip genre_field) else strip genre_field)"
  have b: "bracket_content genre_field =
             (if startswith f (CHR ''['') \<and> endswith f (CHR '']'')
              then Some (strip (slice_1_m1 f)) else None)"
    unfolding bracket_content_def Let_def f_def by (rule refl)
  have e: "extract_genres genre_field =
             (if startswith f (CHR ''['') \<and> endswith f (CHR '']'')
              then bracket_scan (strip (slice_1_m1 f)) [] [] False None
              else map (\<lambda>g. strip_chars [DQ, SQ] (strip g))
                     (filter (\<lambda>g. strip g \<noteq> []) (split_on COMMA f)))"
    unfolding extract_genres_def Let_def f_def by (rule refl)
  show ?thesis
  proof (cases "startswith f (CHR ''['') \<and> endswith f (CHR '']'')")
    case True
    with assms b have "inside = strip (slice_1_m1 f)" by simp
    with True e show ?thesis by simp
  next
    case False
    with assms b show ?thesis by simp
  qed
qed

text \<open>
  C8, as stated: for every field whose bracketed content holds a quoted token that is
  never closed, the result is the genres accumulated before that token, with nothing
  emitted for its remainder. In \<open>[Action, 'Dra]\<close> the quote of \<open>'Dra\<close> is never closed and the
  text before it gives \<open>Action\<close> alone, yet the result is \<open>Action\<close>, \<open>Dra\<close>: after the comma
  that ends the unquoted token \<open>Action\<close> the scan reads a space, so it takes the unquoted
  branch again, whose token \<open> 'Dra\<close> is trimmed of space and quotes and emitted.
\<close>

theorem C8_unquoted_branch_counterexample:
  "bracket_content (''[Action, '' @ [SQ] @ ''Dra]'') = Some (''Action, '' @ [SQ] @ ''Dra'') \<and>
   SQ \<notin> set ''Dra'' \<and>
   bracket_scan ''Action, '' [] [] False None = [''Action''] \<and>
   extract_genres (''[Action, '' @ [SQ] @ ''Dra]'') = [''Action'', ''Dra''] \<and>
   extract_genres (''[Action, '' @ [SQ] @ ''Dra]'') \<noteq> bracket_scan ''Action, '' [] [] False None"
  by (simp add: bracket_content_def extract_genres_def strip_def strip_chars_def py_isspace_def
      startswith_def endswith_def slice_1_m1_def)

text \<open>
  C8, amended: \<open>extract_genres\<close> is a total function without an error result. For every
  field that takes the bracketed branch, whenever the scan of its content has, after some
  number of passes of the loop, a quoted token open (\<open>in_q\<close> is set, opened by \<open>q\<close>) and
  the unread content holds no \<open>q\<close>, the function returns exactly the genres accumulated at
  that point and nothing for the open token.
\<close>

theorem C8_open_token:
  assumes "bracket_content genre_field = Some inside"
    and "(scan_step ^^ n) (inside, [], [], False, None) = (rest, genres, cur, True, Some q)"
    and "q \<notin> set rest"
  shows "extract_genres genre_field = genres"
proof -
  have "extract_genres genre_field = scan_result (inside, [], [], False, None)"
    using assms(1) by (simp add: extract_genres_bracketed scan_result_def)
  also have "\<dots> = scan_result ((scan_step ^^ n) (inside, [], [], False, None))"
    by (simp only: scan_result_steps)
  also have "\<dots> = bracket_scan rest genres cur True (Some q)"
    by (simp only: assms(2)) (simp add: scan_result_def)
  also have "\<dots> = genres" using assms(3) by (rule bracket_scan_open_token)
  finally show ?thesis .
qed

theorem C8_open_token_witness:
  "bracket_content (''['' @ [SQ] @ ''Action'' @ [SQ] @ '', '' @ [SQ] @ ''Dra]'')
     = Some ([SQ] @ ''Action'' @ [SQ] @ '', '' @ [SQ] @ ''Dra'') \<and>
   (scan_step ^^ 9) ([SQ] @ ''Action'' @ [SQ] @ '', '' @ [SQ] @ ''Dra'', [], [], False, None)
     = (''Dra'', [''Action''], [], True, Some SQ) \<and>
   SQ \<notin> set ''Dra'' \<and>
   extract_genres (''['' @ [SQ] @ ''Action'' @ [SQ] @ '', '' @ [SQ] @ ''Dra]'') = [''Action'']"
proof -
  have 1: "bracket_content (''['' @ [SQ] @ ''Action'' @ [SQ] @ '', '' @ [SQ] @ ''Dra]'')
     = Some ([SQ] @ ''Action'' @ [SQ] @ '', '' @ [SQ] @ ''Dra'')"
    by (simp add: bracket_content_def strip_def py_isspace_def startswith_def endswith_def
        slice_1_m1_def)
  have 2: "(scan_step ^^ 9) ([SQ] @ ''Action'' @ [SQ] @ '', '' @ [SQ] @ ''Dra'', [], [], False, None)
     = (''Dra'', [''Action''], [], True, Some SQ)"
    by (simp add: eval_nat_numeral)
  have 3: "SQ \<notin> set ''Dra''" by simp
  show ?thesis by (intro conjI 1 2 3 C8_open_token [OF 1 2 3])
qed

section \<open>The row reader\<close>

lemma join_nl_snoc: "pend \<noteq> [] \<Longrightarrow> join_nl (pend @ [l]) = join_nl pend @ NL # l"
  by (induction pend rule: join_nl.induct) auto

lemma rows_loop_records:
  "rows_loop buffer raw_lines = map split_csv_line (records_loop buffer raw_lines)"
  by (induction raw_lines arbitrary: buffer) (simp_all add: Let_def)

lemma quotes_even_Nil: "quotes_even []"
  by (simp add: quotes_even_def count_char_def)

lemma open_tail_Nil: "open_tail []"
  by (simp add: open_tail_def)

lemma open_tail_buffer:
  assumes "open_tail pend" and "pend \<noteq> []"
  shows "join_nl pend \<noteq> []"
proof
  assume e: "join_nl pend = []"
  from assms(2) have "length pend \<in> {1..length pend}" by (cases pend) auto
  with assms(1) have "\<not> quotes_even (join_nl (take (length pend) pend))"
    unfolding open_tail_def by blast
  with e quotes_even_Nil show False by simp
qed

lemma records_loop_step:
  assumes "open_tail pend"
  shows "records_loop (join_nl pend) (raw_line # raw_lines) =
           (if quotes_even (join_nl (pend @ [rstrip_chars [NL] raw_line]))
            then join_nl (pend @ [rstrip_chars [NL] raw_line]) # records_loop [] raw_lines
            else records_loop (join_nl (pend @ [rstrip_chars [NL] raw_line])) raw_lines)"
proof (cases "pend = []")
  case True
  then show ?thesis by (simp add: Let_def quotes_even_def)
next
  case False
  with assms have "join_nl pend \<noteq> []" by (rule open_tail_buffer)
  with False show ?thesis by (simp add: Let_def quotes_even_def join_nl_snoc)
qed

lemma complete_group_snoc:
  assumes "open_tail pend" and "quotes_even (join_nl (pend @ [l]))"
  shows "complete_group (pend @ [l])"
proof -
  have "\<not> quotes_even (join_nl (take k (pend @ [l])))" if "k \<in> {1..<length (pend @ [l])}" for k
  proof -
    from that have k: "k \<in> {1..length pend}" by simp
    then have "take k (pend @ [l]) = take k pend" by simp
    with assms(1) k show ?thesis unfolding open_tail_def by simp
  qed
  with assms(2) show ?thesis unfolding complete_group_def by simp
qed

lemma open_tail_snoc:
  assumes "open_tail pend" and "\<not> quotes_even (join_nl (pend @ [l]))"
  shows "open_tail (pend @ [l])"
proof -
  have "\<not> quotes_even (join_nl (take k (pend @ [l])))" if "k \<in> {1..length (pend @ [l])}" for k
  proof (cases "k \<le> length pend")
    case True
    with that have k: "k \<in> {1..length pend}" by simp
    from True have "take k (pend @ [l]) = take k pend" by simp
    with assms(1) k show ?thesis unfolding open_tail_def by simp
  next
    case False
    with that have "k = length (pend @ [l])" by simp
    with assms(2) show ?thesis by simp
  qed
  then show ?thesis unfolding open_tail_def by blast
qed

lemma records_loop_groups:
  assumes "open_tail pend"
  shows "\<exists>groups tail.
           pend @ map (rstrip_chars [NL]) raw_lines = concat groups @ tail \<and>
           (\<forall>g \<in> set groups. complete_group g) \<and> open_tail tail \<and>
           records_loop (join_nl pend) raw_lines = map join_nl groups"
  using assms
proof (induction raw_lines arbitrary: pend)
  case Nil
  have "pend @ map (rstrip_chars [NL]) [] = concat [] @ pend \<and>
        (\<forall>g \<in> set []. complete_group g) \<and> open_tail pend \<and>
        records_loop (join_nl pend) [] = map join_nl []"
    using Nil by simp
  then show ?case by blast
next
  case (Cons raw_line raw_lines)
  let ?line = "rstrip_chars [NL] raw_line"
  let ?pend = "pend @ [?line]"
  note step = records_loop_step [OF Cons.prems, of raw_line raw_lines]
  show ?case
  proof (cases "quotes_even (join_nl ?pend)")
    case True
    from Cons.IH [OF open_tail_Nil]
    obtain groups tail where
      c: "[] @ map (rstrip_chars [NL]) raw_lines = concat groups @ tail" and
      g: "\<forall>g \<in> set groups. complete_group g" and
      t: "open_tail tail" and
      r: "records_loop (join_nl []) raw_lines = map join_nl groups"
      by blast
    have cg: "complete_group ?pend" using Cons.prems True by (rule complete_group_snoc)
    have "pend @ map (rstrip_chars [NL]) (raw_line # raw_lines) = concat (?pend # groups) @ tail"
      using c by simp
    moreover have "\<forall>g \<in> set (?pend # groups). complete_group g" using cg g by simp
    moreover have "records_loop (join_nl pend) (raw_line # raw_lines) = map join_nl (?pend # groups)"
      using step True r by simp
    ultimately show ?thesis using t by blast
  next
    case False
    have ot: "open_tail ?pend" using Cons.prems False by (rule open_tail_snoc)
    from Cons.IH [OF ot]
    obtain groups tail where
      c: "?pend @ map (rstrip_chars [NL]) raw_lines = concat groups @ tail" and
      g: "\<forall>g \<in> set groups. complete_group g" and
      t: "open_tail tail" and
      r: "records_loop (join_nl ?pend) raw_lines = map join_nl groups"
      by blast
    have "pend @ map (rstrip_chars [NL]) (raw_line # raw_lines) = concat groups @ tail"
      using c by simp
    moreover have "records_loop (join_nl pend) (raw_line # raw_lines) = map join_nl groups"
      using step False r by simp
    ultimately show ?thesis using g t by blast
  qed
qed

text \<open>
  C5. The physical lines, each without its trailing newline, split into consecutive groups
  followed by a tail. Every group is complete: joined by newlines it has an even number of
  double quotes, and no shorter non-empty prefix of it has. The reader emits exactly the
  groups, each joined by newlines and split into fields, in order. The tail never reaches
  an even quote count and is not emitted.
\<close>

theorem C5_logical_records:
  "\<exists>groups tail.
     map (rstrip_chars [NL]) raw_lines = concat groups @ tail \<and>
     (\<forall>g \<in> set groups. complete_group g) \<and> open_tail tail \<and>
     iter_csv_rows raw_lines = map (\<lambda>g. split_csv_line (join_nl g)) groups"
proof -
  from records_loop_groups [OF open_tail_Nil, of raw_lines]
  obtain groups tail where
    c: "[] @ map (rstrip_chars [NL]) raw_lines = concat groups @ tail" and
    g: "\<forall>g \<in> set groups. complete_group g" and
    t: "open_tail tail" and
    r: "records_loop (join_nl []) raw_lines = map join_nl groups"
    by blast
  have "iter_csv_rows raw_lines = map (\<lambda>g. split_csv_line (join_nl g)) groups"
    using r by (simp add: iter_csv_rows_def rows_loop_records comp_def)
  moreover from c have "map (rstrip_chars [NL]) raw_lines = concat groups @ tail" by simp
  ultimately show ?thesis using g t by blast
qed

theorem C5_logical_records_witness:
  "(\<exists>groups tail.
      map (rstrip_chars [NL])
        [''a,'' @ [DQ] @ ''b'' @ [NL], ''c'' @ [DQ] @ '',d'' @ [NL], ''x'' @ [NL], [DQ] @ ''zz'' @ [NL]]
        = concat groups @ tail \<and>
      (\<forall>g \<in> set groups. complete_group g) \<and> open_tail tail \<and>
      iter_csv_rows
        [''a,'' @ [DQ] @ ''b'' @ [NL], ''c'' @ [DQ] @ '',d'' @ [NL], ''x'' @ [NL], [DQ] @ ''zz'' @ [NL]]
        = map (\<lambda>g. split_csv_line (join_nl g)) groups) \<and>
   complete_group [''a,'' @ [DQ] @ ''b'', ''c'' @ [DQ] @ '',d''] \<and>
   complete_group [''x''] \<and>
   open_tail [[DQ] @ ''zz''] \<and>
   iter_csv_rows
     [''a,'' @ [DQ] @ ''b'' @ [NL], ''c'' @ [DQ] @ '',d'' @ [NL], ''x'' @ [NL], [DQ] @ ''zz'' @ [NL]]
     = [[''a'', ''b'' @ [NL] @ ''c'', ''d''], [''x'']]"
proof -
  have 1: "complete_group [''a,'' @ [DQ] @ ''b'', ''c'' @ [DQ] @ '',d'']"
    by (simp add: complete_group_def quotes_even_def count_char_def atLeastLessThan_upt upt_rec)
  have 2: "complete_group [''x'']"
    by (simp add: complete_group_def quotes_even_def count_char_def)
  have 3: "open_tail [[DQ] @ ''zz'']"
    by (simp add: open_tail_def quotes_even_def count_char_def atLeastAtMost_upt upt_rec)
  have 4: "iter_csv_rows
     [''a,'' @ [DQ] @ ''b'' @ [NL], ''c'' @ [DQ] @ '',d'' @ [NL], ''x'' @ [NL], [DQ] @ ''zz'' @ [NL]]
     = [[''a'', ''b'' @ [NL] @ ''c'', ''d''], [''x'']]"
    by code_simp
  show ?thesis
    by (intro conjI 1 2 3 4 C5_logical_records
          [of "[''a,'' @ [DQ] @ ''b'' @ [NL], ''c'' @ [DQ] @ '',d'' @ [NL], ''x'' @ [NL],
                [DQ] @ ''zz'' @ [NL]]"])
qed

end
